theory Spec2Isabelle
  imports Main "HOL-Library.Product_Lexorder" "HOL-Library.Sublist" "HOL-Library.Log_Nat"
begin

section \<open>SICS: the Searchlight Inefficient Compression Scheme\<close>

text \<open>
  A shallow embedding of \<^verbatim>\<open>Compression_Decompression.py\<close>. A Python character is a
  Unicode code point, so a character is a natural number and a \<^verbatim>\<open>str\<close> is a list of
  them; comparing characters compares code points. A \<^verbatim>\<open>dict\<close> keeps its keys in
  insertion order and \<^verbatim>\<open>items()\<close> walks them in that order, so a dict is an
  association list whose keys are distinct. A frequency table maps characters to
  (unbounded) integers, a code mapping maps characters to strings. The driver
  \<^verbatim>\<open>main\<close>, which only prints, is not modelled.
\<close>

subsection \<open>Strings and dicts\<close>

type_synonym pychar = nat
type_synonym pystr = "pychar list"

definition str :: "string \<Rightarrow> pystr" where
  "str s = map of_char s"

type_synonym ('k, 'v) dict = "('k \<times> 'v) list"

text \<open>\<^verbatim>\<open>d[k] = v\<close>: an existing key keeps its place, a new key goes to the end.\<close>

fun dict_set :: "('k, 'v) dict \<Rightarrow> 'k \<Rightarrow> 'v \<Rightarrow> ('k, 'v) dict" where
  "dict_set [] k v = [(k, v)]"
| "dict_set ((k', v') # d) k v =
     (if k' = k then (k, v) # d else (k', v') # dict_set d k v)"

text \<open>\<^verbatim>\<open>d.get(k)\<close>, with \<open>None\<close> for a missing key.\<close>

definition dict_get :: "('k, 'v) dict \<Rightarrow> 'k \<Rightarrow> 'v option" where
  "dict_get d k = map_of d k"

text \<open>\<^verbatim>\<open>d.get(k, default)\<close>.\<close>

definition dict_get_default :: "('k, 'v) dict \<Rightarrow> 'k \<Rightarrow> 'v \<Rightarrow> 'v" where
  "dict_get_default d k dflt = (case dict_get d k of None \<Rightarrow> dflt | Some v \<Rightarrow> v)"

definition dict_keys :: "('k, 'v) dict \<Rightarrow> 'k list" where
  "dict_keys d = map fst d"

text \<open>The invariant of every Python dict: no key twice.\<close>

definition is_dict :: "('k, 'v) dict \<Rightarrow> bool" where
  "is_dict d = distinct (dict_keys d)"

datatype error = KeyError

subsection \<open>CountFrequencies\<close>

text \<open>
  \<^verbatim>\<open>
  freqs = {}
  for ch in text:
      if ch in freqs: freqs[ch] += 1
      else:           freqs[ch] = 1
  return freqs
  \<close>
\<close>

fun CountFrequencies_loop :: "pystr \<Rightarrow> (pychar, int) dict \<Rightarrow> (pychar, int) dict" where
  "CountFrequencies_loop [] freqs = freqs"
| "CountFrequencies_loop (ch # text) freqs =
     CountFrequencies_loop text
       (case dict_get freqs ch of
          Some n \<Rightarrow> dict_set freqs ch (n + 1)
        | None \<Rightarrow> dict_set freqs ch 1)"

definition CountFrequencies :: "pystr \<Rightarrow> (pychar, int) dict" where
  "CountFrequencies text = CountFrequencies_loop text []"

subsection \<open>SortCharacters\<close>

text \<open>
  The sort key is the tuple \<^verbatim>\<open>(-pair[1], pair[0])\<close>; Python compares tuples
  lexicographically, which is the order of pairs here, and \<^verbatim>\<open>list.sort\<close> is stable,
  as \<^const>\<open>sort_key\<close> is.
\<close>

definition SortKey :: "pychar \<times> int \<Rightarrow> int \<times> pychar" where
  "SortKey pair = (- snd pair, fst pair)"

definition SortCharacters :: "(pychar, int) dict \<Rightarrow> pychar list" where
  "SortCharacters freqs = map fst (sort_key SortKey freqs)"

text \<open>
  The comparator the specification gives for the ranking, on the characters of a table:
  \<open>a\<close> ranks before \<open>b\<close> iff \<open>count > count2\<close>, or the counts are equal and \<open>a\<close> has the
  smaller code point. It is compared with what \<open>SortCharacters\<close> computes.
\<close>

definition ranks_before :: "(pychar, int) dict \<Rightarrow> pychar \<Rightarrow> pychar \<Rightarrow> bool" where
  "ranks_before freqs a b =
     (case (dict_get freqs a, dict_get freqs b) of
        (Some count, Some count2) \<Rightarrow> count > count2 \<or> (count = count2 \<and> a < b)
      | _ \<Rightarrow> False)"

subsection \<open>GenerateCodes\<close>

text \<open>\<^verbatim>\<open>format(n, 'X')\<close>: a natural number in upper-case hexadecimal.\<close>

definition hex_digit :: "nat \<Rightarrow> pychar" where
  "hex_digit d = str ''0123456789ABCDEF'' ! d"

fun format_X :: "nat \<Rightarrow> pystr" where
  "format_X n = (if n < 16 then [hex_digit n] else format_X (n div 16) @ [hex_digit (n mod 16)])"

declare format_X.simps [simp del]

text \<open>
  The generator is a state machine. \<open>Tier0 number\<close> is the first \<^verbatim>\<open>for\<close> loop
  about to try \<open>number\<close>; \<open>TierF pfx number\<close> is the \<^verbatim>\<open>for\<close> loop inside
  \<^verbatim>\<open>while True\<close>, \<open>pfx\<close> being the source's \<^verbatim>\<open>prefix\<close>. A loop whose range is
  used up falls through to what follows it: \<^verbatim>\<open>prefix = 'F'\<close> after the first loop,
  \<^verbatim>\<open>prefix = prefix + 'F'\<close> after the inner one. \<open>gen_next\<close> is \<^verbatim>\<open>next(code_gen)\<close>: the code yielded and the state the
  generator is suspended in.
\<close>

datatype gen_state = Tier0 nat | TierF pystr nat

function gen_next :: "gen_state \<Rightarrow> pystr \<times> gen_state" where
  "gen_next (Tier0 number) =
     (if number < 15 then (format_X number, Tier0 (number + 1))
      else gen_next (TierF (str ''F'') 0))"
| "gen_next (TierF pfx number) =
     (if number < 15 then (pfx @ format_X number, TierF pfx (number + 1))
      else gen_next (TierF (pfx @ str ''F'') 0))"
  by pat_completeness auto
termination
  by (relation "measure (\<lambda>g. case g of
         Tier0 number \<Rightarrow> (if number < 15 then 0 else 2)
       | TierF pfx number \<Rightarrow> (if number < 15 then 0 else 1))") auto

declare gen_next.simps [simp del]

text \<open>\<^verbatim>\<open>GenerateCodes()\<close> returns a fresh generator, suspended before its first line.\<close>

definition GenerateCodes :: gen_state where
  "GenerateCodes = Tier0 0"

text \<open>The first \<open>n\<close> codes a generator in state \<open>g\<close> yields.\<close>

fun take_codes :: "nat \<Rightarrow> gen_state \<Rightarrow> pystr list" where
  "take_codes 0 g = []"
| "take_codes (Suc n) g = (case gen_next g of (code, g') \<Rightarrow> code # take_codes n g')"

text \<open>
  The closed form of the generator's output, used to reason about it: code number \<open>i\<close>
  is \<open>i div 15\<close> times \<open>F\<close>, then the digit of \<open>i mod 15\<close>. That the generator yields
  exactly these is proved below, not assumed.
\<close>

definition tier_code :: "nat \<Rightarrow> pystr" where
  "tier_code i = replicate (i div 15) (of_char CHR ''F'') @ [hex_digit (i mod 15)]"

text \<open>
  The number of codes a generator state has yielded so far, and the states a fresh
  generator can reach.
\<close>

fun gen_index :: "gen_state \<Rightarrow> nat" where
  "gen_index (Tier0 number) = number"
| "gen_index (TierF pfx number) = 15 * length pfx + number"

fun gen_wf :: "gen_state \<Rightarrow> bool" where
  "gen_wf (Tier0 number) = (number \<le> 15)"
| "gen_wf (TierF pfx number) =
     (number \<le> 15 \<and> pfx \<noteq> [] \<and> list_all (\<lambda>c. c = of_char CHR ''F'') pfx)"

text \<open>The code of rank \<open>i\<close> (counting from 0): the last of the first \<open>i + 1\<close> codes.\<close>

definition nth_code :: "nat \<Rightarrow> pystr" where
  "nth_code i = take_codes (Suc i) GenerateCodes ! i"

text \<open>The grammar \<^verbatim>\<open>[0-9A-E] | F+[0-9A-E]\<close>: any number of \<open>F\<close>, then one digit below \<open>F\<close>.\<close>

definition matches_grammar :: "pystr \<Rightarrow> bool" where
  "matches_grammar code =
     (code \<noteq> [] \<and> last code \<in> set (str ''0123456789ABCDE'') \<and>
      list_all (\<lambda>c. c = of_char CHR ''F'') (butlast code))"

subsection \<open>BuildMapping\<close>

text \<open>
  \<^verbatim>\<open>
  mapping = {}
  code_gen = GenerateCodes()
  for ch in sorted_chars:
      mapping[ch] = next(code_gen)
  return mapping
  \<close>
\<close>

fun BuildMapping_loop ::
  "pychar list \<Rightarrow> (pychar, pystr) dict \<Rightarrow> gen_state \<Rightarrow> (pychar, pystr) dict" where
  "BuildMapping_loop [] mapping code_gen = mapping"
| "BuildMapping_loop (ch # sorted_chars) mapping code_gen =
     (case gen_next code_gen of
        (code, code_gen') \<Rightarrow> BuildMapping_loop sorted_chars (dict_set mapping ch code) code_gen')"

definition BuildMapping :: "pychar list \<Rightarrow> (pychar, pystr) dict" where
  "BuildMapping sorted_chars = BuildMapping_loop sorted_chars [] GenerateCodes"

subsection \<open>CompressText\<close>

text \<open>\<^verbatim>\<open>mapping[ch]\<close> raises \<^verbatim>\<open>KeyError\<close> when \<open>ch\<close> is not a key.\<close>

fun CompressText_loop ::
  "pystr \<Rightarrow> (pychar, pystr) dict \<Rightarrow> pystr list \<Rightarrow> error + pystr list" where
  "CompressText_loop [] mapping parts = Inr parts"
| "CompressText_loop (ch # text) mapping parts =
     (case dict_get mapping ch of
        None \<Rightarrow> Inl KeyError
      | Some code \<Rightarrow> CompressText_loop text mapping (parts @ [code]))"

definition CompressText :: "pystr \<Rightarrow> (pychar, pystr) dict \<Rightarrow> error + pystr" where
  "CompressText text mapping =
     (case CompressText_loop text mapping [] of
        Inl e \<Rightarrow> Inl e
      | Inr parts \<Rightarrow> Inr (concat parts))"

subsection \<open>DecompressText\<close>

text \<open>
  \<^verbatim>\<open>
  inverse_map = {}
  for ch, code in mapping.items():
      inverse_map[code] = ch
  \<close>
\<close>

fun build_inverse ::
  "(pychar, pystr) dict \<Rightarrow> (pystr, pychar) dict \<Rightarrow> (pystr, pychar) dict" where
  "build_inverse [] inverse_map = inverse_map"
| "build_inverse ((ch, code) # items) inverse_map =
     build_inverse items (dict_set inverse_map code ch)"

text \<open>\<^verbatim>\<open>while i < length and compressed[i] == 'F': i += 1\<close>\<close>

function skip_F :: "pystr \<Rightarrow> nat \<Rightarrow> nat" where
  "skip_F compressed i =
     (if i < length compressed \<and> compressed ! i = of_char CHR ''F''
      then skip_F compressed (i + 1) else i)"
  by pat_completeness auto
termination
  by (relation "measure (\<lambda>(compressed, i). length compressed - i)") auto

declare skip_F.simps [simp del]

text \<open>
  \<^verbatim>\<open>xs[start:stop]\<close> for indices that are not negative: empty when \<open>stop \<le> start\<close>,
  cut at the end of \<open>xs\<close>.
\<close>

definition slice :: "'a list \<Rightarrow> nat \<Rightarrow> nat \<Rightarrow> 'a list" where
  "slice xs start stop = take (stop - start) (drop start xs)"

text \<open>
  One pass through the body of the outer \<^verbatim>\<open>while\<close>, entered with \<open>i < length\<close>:
  the key it extracts and the cursor it leaves.
\<close>

definition scan_code :: "pystr \<Rightarrow> nat \<Rightarrow> pystr \<times> nat" where
  "scan_code compressed i =
     (if compressed ! i \<noteq> of_char CHR ''F'' then ([compressed ! i], i + 1)
      else
        (let start = i;
             i1 = skip_F compressed i;
             i2 = (if i1 < length compressed then i1 + 1 else i1)
         in (slice compressed start i2, i2)))"

text \<open>The inner loop never moves the cursor back, and a pass through the body moves it on.\<close>

lemma skip_F_unfold_F:
  "i < length compressed \<Longrightarrow> compressed ! i = of_char CHR ''F'' \<Longrightarrow>
   skip_F compressed i = skip_F compressed (i + 1)"
  by (subst skip_F.simps) simp

lemma skip_F_unfold_stop:
  "\<not> (i < length compressed \<and> compressed ! i = of_char CHR ''F'') \<Longrightarrow>
   skip_F compressed i = i"
  by (subst skip_F.simps) auto

lemma skip_F_ge: "i \<le> skip_F compressed i"
proof (induction compressed i rule: skip_F.induct)
  case (1 compressed i)
  show ?case
  proof (cases "i < length compressed \<and> compressed ! i = of_char CHR ''F''")
    case True
    with 1 show ?thesis by (simp add: skip_F_unfold_F)
  next
    case False
    then show ?thesis by (simp add: skip_F_unfold_stop)
  qed
qed

lemma skip_F_le: "i \<le> length compressed \<Longrightarrow> skip_F compressed i \<le> length compressed"
proof (induction compressed i rule: skip_F.induct)
  case (1 compressed i)
  show ?case
  proof (cases "i < length compressed \<and> compressed ! i = of_char CHR ''F''")
    case True
    with 1 show ?thesis by (simp add: skip_F_unfold_F)
  next
    case False
    with 1 show ?thesis by (simp add: skip_F_unfold_stop)
  qed
qed

lemma scan_code_advances:
  assumes "i < length compressed"
  shows "i < snd (scan_code compressed i)"
proof (cases "compressed ! i = of_char CHR ''F''")
  case True
  have "i + 1 \<le> skip_F compressed (i + 1)" by (rule skip_F_ge)
  then have "i < skip_F compressed i"
    using assms True by (simp add: skip_F_unfold_F)
  with True show ?thesis by (simp add: scan_code_def Let_def)
next
  case False
  then show ?thesis by (simp add: scan_code_def)
qed

function DecompressText_loop ::
  "pystr \<Rightarrow> (pystr, pychar) dict \<Rightarrow> nat \<Rightarrow> pystr \<Rightarrow> pystr" where
  "DecompressText_loop compressed inverse_map i result =
     (if i < length compressed then
        (case scan_code compressed i of
           (key, i') \<Rightarrow>
             DecompressText_loop compressed inverse_map i'
               (result @ [dict_get_default inverse_map key (of_char CHR ''?'')]))
      else result)"
  by pat_completeness auto
termination
proof (relation "measure (\<lambda>(compressed, inverse_map, i, result). length compressed - i)",
    goal_cases)
  case 1
  show ?case by simp
next
  case (2 compressed inverse_map i result key i')
  then have "i < i'"
    using scan_code_advances [of i compressed] by (cases "scan_code compressed i") simp
  with 2 show ?case by simp
qed

declare DecompressText_loop.simps [simp del]

definition DecompressText :: "pystr \<Rightarrow> (pychar, pystr) dict \<Rightarrow> pystr" where
  "DecompressText compressed mapping =
     DecompressText_loop compressed (build_inverse mapping []) 0 []"

text \<open>
  The keys the scan extracts, in order: the loop of \<open>DecompressText\<close> with the lookup
  left out. The key at position \<open>j\<close> is the code extracted at the \<open>j\<close>-th pass, and
  decides the \<open>j\<close>-th character of the output.
\<close>

function scan_keys :: "pystr \<Rightarrow> nat \<Rightarrow> pystr list" where
  "scan_keys compressed i =
     (if i < length compressed then
        (case scan_code compressed i of (key, i') \<Rightarrow> key # scan_keys compressed i')
      else [])"
  by pat_completeness auto
termination
proof (relation "measure (\<lambda>(compressed, i). length compressed - i)", goal_cases)
  case 1
  show ?case by simp
next
  case (2 compressed i key i')
  then have "i < i'"
    using scan_code_advances [of i compressed] by (cases "scan_code compressed i") simp
  with 2 show ?case by simp
qed

declare scan_keys.simps [simp del]

section \<open>Properties\<close>

subsection \<open>Dicts\<close>

lemma map_of_dict_set: "map_of (dict_set d k v) = (map_of d)(k \<mapsto> v)"
  by (induction d) (auto simp: fun_eq_iff)

lemma dict_set_new: "k \<notin> fst ` set d \<Longrightarrow> dict_set d k v = d @ [(k, v)]"
  by (induction d) auto

lemma keys_dict_set_old: "k \<in> fst ` set d \<Longrightarrow> map fst (dict_set d k v) = map fst d"
  by (induction d) force+

lemma keys_dict_set:
  "map fst (dict_set d k v) = (if k \<in> fst ` set d then map fst d else map fst d @ [k])"
  by (simp add: keys_dict_set_old dict_set_new)

subsection \<open>CompressText\<close>

lemma CompressText_loop_eq:
  "CompressText_loop text mapping parts =
     (if \<forall>ch\<in>set text. dict_get mapping ch \<noteq> None
      then Inr (parts @ map (\<lambda>ch. the (dict_get mapping ch)) text)
      else Inl KeyError)"
  by (induction "text" arbitrary: parts) (auto split: option.splits)

lemma CompressText_eq:
  "CompressText text mapping =
     (if \<forall>ch\<in>set text. dict_get mapping ch \<noteq> None
      then Inr (concat (map (\<lambda>ch. the (dict_get mapping ch)) text))
      else Inl KeyError)"
  by (simp add: CompressText_def CompressText_loop_eq)

text \<open>
  Claim C4. For every text and mapping, \<open>CompressText\<close> fails exactly when some character
  of the text has no entry in the mapping, the failure is the \<^verbatim>\<open>KeyError\<close> of the
  lookup, and when every character has an entry the result is the concatenation of the
  characters' codes in text order.
\<close>

theorem CompressText_KeyError_iff:
  "(isl (CompressText text mapping) \<longleftrightarrow> (\<exists>ch\<in>set text. dict_get mapping ch = None)) \<and>
   (isl (CompressText text mapping) \<longrightarrow> CompressText text mapping = Inl KeyError) \<and>
   ((\<forall>ch\<in>set text. dict_get mapping ch \<noteq> None) \<longrightarrow>
      CompressText text mapping = Inr (concat (map (\<lambda>ch. the (dict_get mapping ch)) text)))"
  by (auto simp: CompressText_eq)

theorem CompressText_KeyError_iff_witness:
  "CompressText (str ''aba'') [(97, str ''0''), (98, str ''F1'')] = Inr (str ''0F10'') \<and>
   CompressText (str ''abc'') [(97, str ''0''), (98, str ''F1'')] = Inl KeyError"
  using CompressText_KeyError_iff [of "str ''aba''" "[(97, str ''0''), (98, str ''F1'')]"]
    CompressText_KeyError_iff [of "str ''abc''" "[(97, str ''0''), (98, str ''F1'')]"]
  by (simp add: str_def dict_get_def)

subsection \<open>The code alphabet\<close>

lemma hex_digit_values: "map hex_digit [0..<15] = str ''0123456789ABCDE''"
  by (simp add: hex_digit_def str_def upt_rec)

lemma hex_digit_lt15: "n < 15 \<Longrightarrow> hex_digit n \<in> set (str ''0123456789ABCDE'')"
proof -
  assume "n < 15"
  then have "hex_digit n \<in> set (map hex_digit [0..<15])" by simp
  then show ?thesis by (simp only: hex_digit_values)
qed

lemma distinct_hex: "distinct (map hex_digit [0..<15])"
  unfolding hex_digit_values by (simp add: str_def)

lemma hex_digit_inj: "m < 15 \<Longrightarrow> n < 15 \<Longrightarrow> hex_digit m = hex_digit n \<Longrightarrow> m = n"
  using distinct_hex by (auto simp: distinct_map inj_on_def)

lemma hex_digit_not_F: "n < 15 \<Longrightarrow> hex_digit n \<noteq> of_char CHR ''F''"
  using hex_digit_lt15 [of n] by (auto simp: str_def)

subsection \<open>GenerateCodes\<close>

lemma format_X_lt15: "n < 15 \<Longrightarrow> format_X n = [hex_digit n]"
  by (subst format_X.simps) simp

lemma gen_next_TierF:
  assumes "gen_wf (TierF pfx number)"
  shows "fst (gen_next (TierF pfx number)) = tier_code (gen_index (TierF pfx number)) \<and>
         gen_wf (snd (gen_next (TierF pfx number))) \<and>
         gen_index (snd (gen_next (TierF pfx number))) = Suc (gen_index (TierF pfx number))"
proof (cases "number < 15")
  case True
  have r: "replicate (length pfx) (of_char CHR ''F'') = pfx"
    using assms by (intro replicate_length_same) (simp add: list_all_iff)
  have "gen_next (TierF pfx number) = (pfx @ [hex_digit number], TierF pfx (number + 1))"
    using True by (subst gen_next.simps) (simp add: format_X_lt15)
  moreover have "tier_code (15 * length pfx + number) = pfx @ [hex_digit number]"
    using True r by (simp add: tier_code_def)
  ultimately show ?thesis using True assms by simp
next
  case False
  with assms have n: "number = 15" by simp
  have r: "replicate (length pfx) (of_char CHR ''F'') = pfx"
    using assms by (intro replicate_length_same) (simp add: list_all_iff)
  have "replicate (Suc (length pfx)) (of_char CHR ''F'') =
      replicate (length pfx) (of_char CHR ''F'') @ [of_char CHR ''F'' :: pychar]"
    by (simp only: replicate_append_same replicate_Suc)
  then have p: "pfx @ str ''F'' = replicate (Suc (length pfx)) (of_char CHR ''F'')"
    by (simp only: r str_def list.map)
  have "gen_next (TierF pfx number) = gen_next (TierF (pfx @ str ''F'') 0)"
    using n by (subst gen_next.simps) simp
  also have "\<dots> = ((pfx @ str ''F'') @ [hex_digit 0], TierF (pfx @ str ''F'') 1)"
    by (subst gen_next.simps) (simp add: format_X_lt15)
  finally have g: "gen_next (TierF pfx number) =
      ((pfx @ str ''F'') @ [hex_digit 0], TierF (pfx @ str ''F'') 1)" .
  have "tier_code (15 * length pfx + 15) = (pfx @ str ''F'') @ [hex_digit 0]"
    unfolding p by (simp add: tier_code_def)
  moreover have "gen_wf (TierF (pfx @ str ''F'') 1)"
    using assms by (simp add: str_def)
  ultimately show ?thesis using g n by (simp add: str_def)
qed

lemma gen_next_Tier0:
  assumes "gen_wf (Tier0 number)"
  shows "fst (gen_next (Tier0 number)) = tier_code (gen_index (Tier0 number)) \<and>
         gen_wf (snd (gen_next (Tier0 number))) \<and>
         gen_index (snd (gen_next (Tier0 number))) = Suc (gen_index (Tier0 number))"
proof (cases "number < 15")
  case True
  then have "gen_next (Tier0 number) = ([hex_digit number], Tier0 (number + 1))"
    by (subst gen_next.simps) (simp add: format_X_lt15)
  with True show ?thesis by (simp add: tier_code_def)
next
  case False
  with assms have n: "number = 15" by simp
  have "gen_next (Tier0 number) = gen_next (TierF (str ''F'') 0)"
    using n by (subst gen_next.simps) simp
  also have "\<dots> = (str ''F'' @ [hex_digit 0], TierF (str ''F'') 1)"
    by (subst gen_next.simps) (simp add: format_X_lt15)
  finally show ?thesis using n by (simp add: tier_code_def str_def)
qed

lemma gen_next_step:
  "gen_wf g \<Longrightarrow>
   fst (gen_next g) = tier_code (gen_index g) \<and> gen_wf (snd (gen_next g)) \<and>
   gen_index (snd (gen_next g)) = Suc (gen_index g)"
  by (cases g) (simp_all only: gen_next_Tier0 gen_next_TierF)

lemma take_codes_eq:
  "gen_wf g \<Longrightarrow> take_codes n g = map tier_code [gen_index g ..< gen_index g + n]"
proof (induction n arbitrary: g)
  case 0
  show ?case by simp
next
  case (Suc n)
  obtain code g' where gn: "gen_next g = (code, g')" by (cases "gen_next g")
  from gen_next_step [OF Suc.prems] gn
  have c: "code = tier_code (gen_index g)" and w: "gen_wf g'" and i: "gen_index g' = Suc (gen_index g)"
    by simp_all
  have "[gen_index g ..< gen_index g + Suc n] =
      gen_index g # [Suc (gen_index g) ..< Suc (gen_index g) + n]"
    by (simp add: upt_conv_Cons del: upt_Suc)
  then show ?case
    using Suc.IH [OF w] by (simp add: gn c i del: upt_Suc)
qed

lemma take_codes_fresh: "take_codes n GenerateCodes = map tier_code [0..<n]"
  using take_codes_eq [of GenerateCodes n] by (simp add: GenerateCodes_def)

lemma nth_code_eq: "nth_code i = tier_code i"
  unfolding nth_code_def take_codes_fresh by (simp del: upt_Suc)

lemma tier_code_inj: "tier_code i = tier_code j \<Longrightarrow> i = j"
proof -
  assume e: "tier_code i = tier_code j"
  then have "length (tier_code i) = length (tier_code j)" by simp
  then have d: "i div 15 = j div 15" by (simp add: tier_code_def)
  from e have "last (tier_code i) = last (tier_code j)" by simp
  then have "hex_digit (i mod 15) = hex_digit (j mod 15)" by (simp add: tier_code_def)
  then have "i mod 15 = j mod 15" by (rule hex_digit_inj [rotated 2]) simp_all
  with d have "i div 15 * 15 + i mod 15 = j div 15 * 15 + j mod 15" by simp
  then show ?thesis by (simp only: div_mult_mod_eq)
qed

lemma tier_code_grammar: "matches_grammar (tier_code i)"
  using hex_digit_lt15 [of "i mod 15"] by (simp add: matches_grammar_def tier_code_def list_all_iff)

lemma tier_code_no_prefix: "\<not> strict_prefix (tier_code i) (tier_code j)"
proof
  assume sp: "strict_prefix (tier_code i) (tier_code j)"
  then have "length (tier_code i) < length (tier_code j)"
    by (metis prefix_length_less)
  then have lt: "i div 15 < j div 15" by (simp add: tier_code_def)
  from sp obtain zs where "tier_code j = tier_code i @ zs" by (auto simp: strict_prefix_def prefix_def)
  then have "tier_code j ! (i div 15) = tier_code i ! (i div 15)"
    by (simp add: nth_append tier_code_def)
  with lt have "hex_digit (i mod 15) = of_char CHR ''F''"
    by (simp add: tier_code_def nth_append)
  with hex_digit_not_F [of "i mod 15"] show False by simp
qed

text \<open>
  Claim C6. For every \<open>N\<close>, each of the first \<open>N\<close> codes of a fresh generator matches the
  grammar \<^verbatim>\<open>[0-9A-E] | F+[0-9A-E]\<close>, the first \<open>N\<close> codes are pairwise distinct, and none
  of them is a proper prefix of another.
\<close>

theorem GenerateCodes_well_formed:
  "list_all matches_grammar (take_codes N GenerateCodes) \<and>
   distinct (take_codes N GenerateCodes) \<and>
   (\<forall>a \<in> set (take_codes N GenerateCodes). \<forall>b \<in> set (take_codes N GenerateCodes).
      \<not> strict_prefix a b)"
proof (intro conjI ballI)
  show "list_all matches_grammar (take_codes N GenerateCodes)"
    by (simp add: take_codes_fresh list_all_iff tier_code_grammar)
  show "distinct (take_codes N GenerateCodes)"
    by (auto simp: take_codes_fresh distinct_map inj_on_def dest: tier_code_inj)
next
  fix a b
  assume "a \<in> set (take_codes N GenerateCodes)" "b \<in> set (take_codes N GenerateCodes)"
  then obtain i j where "a = tier_code i" "b = tier_code j"
    by (auto simp: take_codes_fresh)
  then show "\<not> strict_prefix a b" by (simp add: tier_code_no_prefix)
qed

theorem GenerateCodes_well_formed_witness:
  "drop 14 (take_codes 17 GenerateCodes) = [str ''E'', str ''F0'', str ''F1''] \<and>
   take_codes 17 GenerateCodes ! 1 = str ''1'' \<and>
   list_all matches_grammar (take_codes 17 GenerateCodes) \<and>
   distinct (take_codes 17 GenerateCodes) \<and>
   \<not> strict_prefix (str ''1'') (str ''F1'')"
proof -
  have t: "drop 14 (take_codes 17 GenerateCodes) = [str ''E'', str ''F0'', str ''F1'']"
    "take_codes 17 GenerateCodes ! 1 = str ''1''"
    by code_simp+
  have "length (take_codes 17 GenerateCodes) = 17" by code_simp
  then have "take_codes 17 GenerateCodes ! 1 \<in> set (take_codes 17 GenerateCodes)"
    by (intro nth_mem) simp
  moreover have "str ''F1'' \<in> set (drop 14 (take_codes 17 GenerateCodes))"
    unfolding t by simp
  then have "str ''F1'' \<in> set (take_codes 17 GenerateCodes)"
    by (rule in_set_dropD)
  ultimately show ?thesis
    using GenerateCodes_well_formed [of 17] t by auto
qed

lemma sq_lt_pow15: "m * m + 2 * m < (15::nat) ^ m"
proof (induction m)
  case 0
  show ?case by simp
next
  case (Suc m)
  have "Suc m * Suc m + 2 * Suc m = (m * m + 2 * m) + 2 * m + 3" by simp
  also have "\<dots> < 15 * (m * m + 2 * m) + 15" by simp
  also have "\<dots> \<le> 15 * 15 ^ m" using Suc by simp
  finally show ?case by simp
qed

text \<open>
  Claim C8, as amended. The code of rank \<open>i\<close> has length \<open>i div 15 + 1\<close>: each tier of 15
  codes is one \<open>F\<close> longer than the tier before, so the length grows linearly in the rank.
\<close>

theorem code_length_linear: "length (nth_code i) = i div 15 + 1"
  by (simp add: nth_code_eq tier_code_def)

text \<open>
  Claim C8 as stated fails: the code of rank 1500 has 101 symbols, where 1500 has three
  digits in base 15, and no bound \<open>a * floorlog 15 i + b\<close> holds for every rank;
  \<open>floorlog 15 i\<close> is the number of base-15 digits of \<open>i\<close>, which is above \<open>log\<^sub>1\<^sub>5 i\<close>.
\<close>

theorem code_length_not_logarithmic:
  "length (nth_code 1500) = 101 \<and> floorlog 15 1500 = 3 \<and>
   \<not> (\<exists>a b. \<forall>i. length (nth_code i) \<le> a * floorlog 15 i + b)"
proof (intro conjI)
  show "length (nth_code 1500) = 101"
    by (simp add: nth_code_eq tier_code_def)
  show "floorlog 15 1500 = 3"
    by code_simp
  show "\<not> (\<exists>a b. \<forall>i. length (nth_code i) \<le> a * floorlog 15 i + b)"
  proof
    assume "\<exists>a b. \<forall>i. length (nth_code i) \<le> a * floorlog 15 i + b"
    then obtain a b where bound: "\<And>i. length (nth_code i) \<le> a * floorlog 15 i + b"
      by blast
    define m where "m = a + b"
    define n where "n = a * (m + 1) + b"
    have "n \<le> m * m + 2 * m"
    proof -
      have "a * (m + 1) \<le> m * (m + 1)" unfolding m_def by (intro mult_le_mono1) simp
      moreover have "b \<le> m" unfolding m_def by simp
      ultimately show ?thesis unfolding n_def by simp
    qed
    also have "\<dots> < 15 ^ m" by (rule sq_lt_pow15)
    finally have "15 * n < 15 ^ (m + 1)" by simp
    then have "floorlog 15 (15 * n) \<le> m + 1" by (intro floorlog_leI) simp_all
    then have "a * floorlog 15 (15 * n) \<le> a * (m + 1)" by (rule mult_le_mono2)
    then have "a * floorlog 15 (15 * n) + b \<le> n"
      by (simp only: n_def add_le_mono1)
    moreover have "length (nth_code (15 * n)) = n + 1" by (simp add: nth_code_eq tier_code_def)
    ultimately show False using bound [of "15 * n"] by simp
  qed
qed

subsection \<open>CountFrequencies and SortCharacters\<close>

lemma CountFrequencies_step_keys:
  "map fst (case dict_get freqs ch of
              Some n \<Rightarrow> dict_set freqs ch (n + 1)
            | None \<Rightarrow> dict_set freqs ch 1) =
   (if ch \<in> fst ` set freqs then map fst freqs else map fst freqs @ [ch])"
  by (simp add: keys_dict_set split: option.splits)

lemma CountFrequencies_loop_keys:
  "distinct (map fst freqs) \<Longrightarrow>
   distinct (map fst (CountFrequencies_loop text freqs)) \<and>
   set (map fst (CountFrequencies_loop text freqs)) = set (map fst freqs) \<union> set text"
proof (induction "text" arbitrary: freqs)
  case Nil
  then show ?case by simp
next
  case (Cons ch rest)
  let ?f = "case dict_get freqs ch of
              Some n \<Rightarrow> dict_set freqs ch (n + 1)
            | None \<Rightarrow> dict_set freqs ch 1"
  have d: "distinct (map fst ?f)"
    using Cons.prems by (simp only: CountFrequencies_step_keys) auto
  have s: "set (map fst ?f) = insert ch (set (map fst freqs))"
    by (simp only: CountFrequencies_step_keys) auto
  from Cons.IH [OF d] s show ?case by simp
qed

lemma CountFrequencies_keys:
  "distinct (map fst (CountFrequencies text)) \<and> set (map fst (CountFrequencies text)) = set text"
  using CountFrequencies_loop_keys [of "[]" "text"] by (simp add: CountFrequencies_def)

lemma set_SortCharacters: "set (SortCharacters freqs) = fst ` set freqs"
  by (simp add: SortCharacters_def)

lemma length_SortCharacters: "length (SortCharacters freqs) = length freqs"
  by (simp add: SortCharacters_def)

lemma distinct_SortCharacters:
  "distinct (map fst freqs) \<Longrightarrow> distinct (SortCharacters freqs)"
  by (simp add: SortCharacters_def distinct_map)

lemma SortCharacters_nth_order:
  assumes d: "distinct (map fst freqs)" and ij: "i < j" "j < length (SortCharacters freqs)"
  shows "ranks_before freqs (SortCharacters freqs ! i) (SortCharacters freqs ! j)"
proof -
  let ?s = "sort_key SortKey freqs"
  have len: "length ?s = length freqs" by simp
  have j: "j < length ?s" and i: "i < length ?s" using ij by (simp_all add: length_SortCharacters)
  obtain a ca where a: "?s ! i = (a, ca)" by (cases "?s ! i")
  obtain b cb where b: "?s ! j = (b, cb)" by (cases "?s ! j")
  have "(a, ca) \<in> set ?s" "(b, cb) \<in> set ?s"
    using nth_mem [OF i] nth_mem [OF j] a b by simp_all
  then have mem: "(a, ca) \<in> set freqs" "(b, cb) \<in> set freqs" by simp_all
  with d have get: "dict_get freqs a = Some ca" "dict_get freqs b = Some cb"
    by (simp_all add: dict_get_def)
  have "sorted (map SortKey ?s)" by (rule sorted_sort_key)
  then have "map SortKey ?s ! i \<le> map SortKey ?s ! j"
    using ij(1) j by (intro sorted_nth_mono) simp_all
  then have le: "(- ca, a) \<le> (- cb, b)"
    using i j a b by (simp add: SortKey_def)
  have "distinct (SortCharacters freqs)" using d by (rule distinct_SortCharacters)
  then have "SortCharacters freqs ! i \<noteq> SortCharacters freqs ! j"
    using ij by (simp add: nth_eq_iff_index_eq)
  then have ne: "a \<noteq> b"
    using i j a b by (simp add: SortCharacters_def)
  from le ne have "cb < ca \<or> (ca = cb \<and> a < b)"
    by (auto simp: less_eq_prod_def)
  then show ?thesis
    using i j a b get by (simp add: ranks_before_def SortCharacters_def)
qed

text \<open>
  Claim C5. For every frequency table, \<open>SortCharacters\<close> returns the keys of the table,
  each once, and every earlier character ranks before every later one: its count is
  larger, or the counts are equal and its code point is smaller. In particular, of two
  characters with equal counts the one with the smaller code point comes first.
\<close>

theorem SortCharacters_ranked:
  assumes "is_dict freqs"
  shows "distinct (SortCharacters freqs) \<and>
         set (SortCharacters freqs) = set (dict_keys freqs) \<and>
         (\<forall>i j. i < j \<and> j < length (SortCharacters freqs) \<longrightarrow>
            ranks_before freqs (SortCharacters freqs ! i) (SortCharacters freqs ! j)) \<and>
         (\<forall>a b count. dict_get freqs a = Some count \<and> dict_get freqs b = Some count \<and> a < b \<longrightarrow>
            (\<exists>i j. i < j \<and> j < length (SortCharacters freqs) \<and>
                   SortCharacters freqs ! i = a \<and> SortCharacters freqs ! j = b))"
proof (intro conjI allI impI)
  from assms have d: "distinct (map fst freqs)" by (simp add: is_dict_def dict_keys_def)
  show "distinct (SortCharacters freqs)" using d by (rule distinct_SortCharacters)
  show "set (SortCharacters freqs) = set (dict_keys freqs)"
    by (simp add: set_SortCharacters dict_keys_def)
  {
    fix i j
    assume "i < j \<and> j < length (SortCharacters freqs)"
    then show "ranks_before freqs (SortCharacters freqs ! i) (SortCharacters freqs ! j)"
      using SortCharacters_nth_order [OF d] by simp
  }
  {
    fix a b count
    assume h: "dict_get freqs a = Some count \<and> dict_get freqs b = Some count \<and> a < b"
    let ?R = "SortCharacters freqs"
    from h have "a \<in> set ?R" "b \<in> set ?R"
      by (auto simp: set_SortCharacters dict_get_def dest!: map_of_SomeD intro: rev_image_eqI)
    then obtain i j where i: "i < length ?R" "?R ! i = a" and j: "j < length ?R" "?R ! j = b"
      by (auto simp: in_set_conv_nth)
    have "i \<noteq> j" using i j h by auto
    moreover have "\<not> j < i"
    proof
      assume "j < i"
      from SortCharacters_nth_order [OF d this i(1)] i j h show False
        by (simp add: ranks_before_def)
    qed
    ultimately have "i < j" by simp
    with i j show "\<exists>i j. i < j \<and> j < length ?R \<and> ?R ! i = a \<and> ?R ! j = b" by blast
  }
qed

theorem SortCharacters_ranked_witness:
  "is_dict [(97::pychar, 2::int), (65, 2), (98, 5)] \<and>
   SortCharacters [(97, 2), (65, 2), (98, 5)] = [98, 65, 97] \<and>
   ranks_before [(97, 2), (65, 2), (98, 5)] 65 97 \<and>
   distinct (SortCharacters [(97, 2), (65, 2), (98, 5)])"
proof -
  have d: "is_dict [(97::nat, 2), (65, 2), (98, 5::int)]"
    by (simp add: is_dict_def dict_keys_def)
  have s: "SortCharacters [(97, 2), (65, 2), (98, 5)] = [98, 65, 97]"
    by (simp add: SortCharacters_def SortKey_def less_eq_prod_def)
  have "(1::nat) < 2 \<and> 2 < length (SortCharacters [(97, 2), (65, 2), (98, 5)])"
    by (simp add: s)
  with SortCharacters_ranked [OF d] have "ranks_before [(97, 2), (65, 2), (98, 5)]
      (SortCharacters [(97, 2), (65, 2), (98, 5)] ! 1) (SortCharacters [(97, 2), (65, 2), (98, 5)] ! 2)"
    by blast
  with SortCharacters_ranked [OF d] d s show ?thesis by simp
qed


subsection \<open>BuildMapping\<close>

lemma BuildMapping_loop_eq:
  "distinct sorted_chars \<Longrightarrow> set sorted_chars \<inter> fst ` set mapping = {} \<Longrightarrow> gen_wf g \<Longrightarrow>
   BuildMapping_loop sorted_chars mapping g =
     mapping @ zip sorted_chars
       (map tier_code [gen_index g ..< gen_index g + length sorted_chars])"
proof (induction sorted_chars arbitrary: mapping g)
  case Nil
  show ?case by simp
next
  case (Cons ch rest)
  obtain code g' where gn: "gen_next g = (code, g')" by (cases "gen_next g")
  from gen_next_step [OF Cons.prems(3)] gn
  have c: "code = tier_code (gen_index g)" and w: "gen_wf g'"
    and i: "gen_index g' = Suc (gen_index g)"
    by simp_all
  have new: "dict_set mapping ch code = mapping @ [(ch, code)]"
    using Cons.prems(2) by (intro dict_set_new) auto
  have disj: "set rest \<inter> fst ` set (mapping @ [(ch, code)]) = {}"
    using Cons.prems(1,2) by auto
  have u: "[gen_index g ..< Suc (gen_index g + length rest)] =
      gen_index g # [Suc (gen_index g) ..< Suc (gen_index g + length rest)]"
    by (simp add: upt_conv_Cons del: upt_Suc)
  have "BuildMapping_loop (ch # rest) mapping g =
      BuildMapping_loop rest (mapping @ [(ch, code)]) g'"
    by (simp add: gn new)
  also have "\<dots> = (mapping @ [(ch, code)]) @ zip rest
       (map tier_code [gen_index g' ..< gen_index g' + length rest])"
    using Cons.prems(1) disj w by (intro Cons.IH) simp_all
  finally show ?case by (simp add: c i u del: upt_Suc)
qed

lemma BuildMapping_eq:
  "distinct sorted_chars \<Longrightarrow>
   BuildMapping sorted_chars = zip sorted_chars (map tier_code [0..<length sorted_chars])"
  using BuildMapping_loop_eq [of sorted_chars "[]" GenerateCodes]
  by (simp add: BuildMapping_def GenerateCodes_def)

lemma BuildMapping_nth:
  assumes "distinct sorted_chars" "i < length sorted_chars"
  shows "dict_get (BuildMapping sorted_chars) (sorted_chars ! i) = Some (tier_code i)"
proof -
  have "map_of (zip sorted_chars (map tier_code [0..<length sorted_chars])) (sorted_chars ! i)
      = Some (map tier_code [0..<length sorted_chars] ! i)"
    using assms by (intro map_of_zip_nth) simp_all
  then show ?thesis using assms by (simp add: dict_get_def BuildMapping_eq)
qed

text \<open>
  Claim C7. For every text with exactly 16 distinct characters, the ranked list has 16
  entries and \<open>BuildMapping\<close> assigns the character at rank 15 the code \<open>F0\<close>.
\<close>

theorem sixteenth_code_is_F0:
  assumes "card (set text) = 16"
  shows "length (SortCharacters (CountFrequencies text)) = 16 \<and>
         dict_get (BuildMapping (SortCharacters (CountFrequencies text)))
           (SortCharacters (CountFrequencies text) ! 15) = Some (str ''F0'')"
proof -
  let ?R = "SortCharacters (CountFrequencies text)"
  have d: "distinct ?R"
    using CountFrequencies_keys [of "text"] by (intro distinct_SortCharacters) simp
  have "set ?R = set text"
    using CountFrequencies_keys [of "text"] by (simp add: set_SortCharacters)
  with d assms have len: "length ?R = 16" by (metis distinct_card)
  have "tier_code 15 = str ''F0''" by (simp add: tier_code_def hex_digit_def str_def)
  with BuildMapping_nth [OF d, of 15] len show ?thesis by simp
qed

theorem sixteenth_code_is_F0_witness:
  "card (set (str ''the quick brown fox'')) = 16 \<and>
   SortCharacters (CountFrequencies (str ''the quick brown fox'')) ! 15 = of_char CHR ''x'' \<and>
   dict_get (BuildMapping (SortCharacters (CountFrequencies (str ''the quick brown fox''))))
      (of_char CHR ''x'') = Some (str ''F0'')"
proof -
  have "length (remdups (str ''the quick brown fox'')) = 16" by code_simp
  then have c: "card (set (str ''the quick brown fox'')) = 16" by (simp only: card_set)
  have r: "SortCharacters (CountFrequencies (str ''the quick brown fox'')) ! 15 = of_char CHR ''x''"
    by code_simp
  from sixteenth_code_is_F0 [OF c] c r show ?thesis by simp
qed

subsection \<open>DecompressText\<close>

lemma DecompressText_loop_eq:
  "DecompressText_loop compressed inverse_map i result =
     result @ map (\<lambda>key. dict_get_default inverse_map key (of_char CHR ''?''))
                  (scan_keys compressed i)"
proof (induction compressed inverse_map i result rule: DecompressText_loop.induct)
  case (1 compressed inverse_map i result)
  show ?case
  proof (cases "i < length compressed")
    case True
    obtain key i' where sc: "scan_code compressed i = (key, i')"
      by (cases "scan_code compressed i")
    from 1 [OF True sc [symmetric]] True sc show ?thesis
      by (subst DecompressText_loop.simps, subst scan_keys.simps) simp
  next
    case False
    then show ?thesis
      by (subst DecompressText_loop.simps, subst scan_keys.simps) simp
  qed
qed

lemma DecompressText_eq:
  "DecompressText compressed mapping =
     map (\<lambda>key. dict_get_default (build_inverse mapping []) key (of_char CHR ''?''))
         (scan_keys compressed 0)"
  by (simp add: DecompressText_def DecompressText_loop_eq)

lemma skip_F_takeWhile:
  "i \<le> length compressed \<Longrightarrow>
   skip_F compressed i = i + length (takeWhile (\<lambda>x. x = of_char CHR ''F'') (drop i compressed))"
proof (induction compressed i rule: skip_F.induct)
  case (1 compressed i)
  show ?case
  proof (cases "i < length compressed \<and> compressed ! i = of_char CHR ''F''")
    case True
    then have "i < length compressed" by simp
    then have d: "drop i compressed = compressed ! i # drop (Suc i) compressed"
      by (rule Cons_nth_drop_Suc [symmetric])
    from 1 True show ?thesis by (simp add: skip_F_unfold_F d)
  next
    case False
    show ?thesis
    proof (cases "i < length compressed")
      case True
      then have d: "drop i compressed = compressed ! i # drop (Suc i) compressed"
        by (rule Cons_nth_drop_Suc [symmetric])
      from False True show ?thesis by (simp add: skip_F_unfold_stop d)
    next
      case False
      then show ?thesis by (simp add: skip_F_unfold_stop)
    qed
  qed
qed

lemma scan_code_le:
  "i < length compressed \<Longrightarrow> snd (scan_code compressed i) \<le> length compressed"
  using skip_F_le [of i compressed] by (auto simp: scan_code_def Let_def)

lemma scan_code_slice:
  assumes "i < length compressed"
  shows "fst (scan_code compressed i) = slice compressed i (snd (scan_code compressed i))"
proof (cases "compressed ! i = of_char CHR ''F''")
  case True
  then show ?thesis by (simp add: scan_code_def Let_def)
next
  case False
  with assms show ?thesis
    by (simp add: scan_code_def slice_def take_Suc_conv_app_nth hd_drop_conv_nth take_Suc)
qed

lemma concat_scan_keys: "i \<le> length compressed \<Longrightarrow> concat (scan_keys compressed i) = drop i compressed"
proof (induction compressed i rule: scan_keys.induct)
  case (1 compressed i)
  show ?case
  proof (cases "i < length compressed")
    case True
    obtain key i' where sc: "scan_code compressed i = (key, i')"
      by (cases "scan_code compressed i")
    have le: "i' \<le> length compressed" and lt: "i < i'" and k: "key = slice compressed i i'"
      using scan_code_le [OF True] scan_code_advances [OF True] scan_code_slice [OF True] sc
      by simp_all
    have "concat (scan_keys compressed i) = key @ concat (scan_keys compressed i')"
      using True sc by (subst scan_keys.simps) simp
    also have "\<dots> = key @ drop i' compressed"
      using "1.IH" [OF True sc [symmetric] le] by simp
    also have "\<dots> = drop i compressed"
    proof -
      have "drop i' compressed = drop (i' - i) (drop i compressed)" using lt by simp
      then show ?thesis unfolding k slice_def by (metis append_take_drop_id)
    qed
    finally show ?thesis .
  next
    case False
    with 1 show ?thesis by (subst scan_keys.simps) simp
  qed
qed

lemma map_of_build_inverse:
  "map_of (build_inverse mapping inverse_map) =
     map_of inverse_map ++ map_of (rev (map (\<lambda>(ch, code). (code, ch)) mapping))"
proof (induction mapping arbitrary: inverse_map)
  case Nil
  show ?case by simp
next
  case (Cons item items)
  obtain ch code where item: "item = (ch, code)" by (cases item)
  show ?case
    by (simp add: item Cons map_of_dict_set map_add_upd_left fun_eq_iff map_add_def split: option.splits)
qed

lemma dom_build_inverse:
  "dict_get (build_inverse mapping []) key = None \<longleftrightarrow> key \<notin> snd ` set mapping"
proof -
  have "fst ` set (rev (map (\<lambda>(ch, code). (code, ch)) mapping)) = snd ` set mapping"
    by force
  then show ?thesis
    by (simp add: dict_get_def map_of_build_inverse map_of_eq_None_iff)
qed

lemma length_scan_keys: "length (scan_keys compressed i) \<le> length compressed - i"
proof (induction compressed i rule: scan_keys.induct)
  case (1 compressed i)
  show ?case
  proof (cases "i < length compressed")
    case True
    obtain key i' where sc: "scan_code compressed i = (key, i')"
      by (cases "scan_code compressed i")
    have lt: "i < i'" using scan_code_advances [OF True] sc by simp
    have "length (scan_keys compressed i) = Suc (length (scan_keys compressed i'))"
      using True sc by (subst scan_keys.simps) simp
    with 1 [OF True sc [symmetric]] lt True show ?thesis by simp
  next
    case False
    then show ?thesis by (subst scan_keys.simps) simp
  qed
qed

lemma skip_F_stops:
  "skip_F compressed i < length compressed \<Longrightarrow>
   compressed ! (skip_F compressed i) \<noteq> of_char CHR ''F''"
proof (induction compressed i rule: skip_F.induct)
  case (1 compressed i)
  show ?case
  proof (cases "i < length compressed \<and> compressed ! i = of_char CHR ''F''")
    case True
    with 1 show ?thesis by (simp add: skip_F_unfold_F)
  next
    case False
    with 1 show ?thesis by (simp add: skip_F_unfold_stop)
  qed
qed

lemma takeWhile_full: "length (takeWhile P xs) = length xs \<Longrightarrow> x \<in> set xs \<Longrightarrow> P x"
proof (induction xs)
  case Nil
  then show ?case by simp
next
  case (Cons y ys)
  have "length (takeWhile P ys) \<le> length ys" by (rule length_takeWhile_le)
  with Cons show ?case by (auto split: if_splits)
qed

lemma skip_F_run:
  assumes "i \<le> length compressed" "skip_F compressed i = length compressed"
    and "x \<in> set (drop i compressed)"
  shows "x = of_char CHR ''F''"
proof -
  have "length (takeWhile (\<lambda>x. x = of_char CHR ''F'') (drop i compressed)) = length (drop i compressed)"
    using assms(1,2) skip_F_takeWhile [OF assms(1)] by simp
  from takeWhile_full [OF this assms(3)] show ?thesis .
qed

lemma scan_code_final_run:
  assumes lt: "i < length compressed" and lastF: "last compressed = of_char CHR ''F''"
    and fin: "snd (scan_code compressed i) = length compressed"
    and x: "x \<in> set (fst (scan_code compressed i))"
  shows "x = of_char CHR ''F''"
proof -
  have ne: "compressed \<noteq> []" using lt by auto
  have lastn: "compressed ! (length compressed - 1) = of_char CHR ''F''"
    using lastF ne by (simp add: last_conv_nth)
  show ?thesis
  proof (cases "compressed ! i = of_char CHR ''F''")
    case False
    then have "i + 1 = length compressed" using fin by (simp add: scan_code_def)
    then have "i = length compressed - 1" by simp
    with lastn False show ?thesis by simp
  next
    case True
    let ?i1 = "skip_F compressed i"
    have le: "?i1 \<le> length compressed" using skip_F_le [of i compressed] lt by simp
    show ?thesis
    proof (cases "?i1 < length compressed")
      case True
      with fin \<open>compressed ! i = of_char CHR ''F''\<close> have "?i1 + 1 = length compressed"
        by (simp add: scan_code_def Let_def)
      then have "?i1 = length compressed - 1" by simp
      with lastn skip_F_stops [OF True] show ?thesis by simp
    next
      case False
      with le have eq: "?i1 = length compressed" by simp
      with True x have "x \<in> set (drop i compressed)"
        by (simp add: scan_code_def Let_def slice_def)
      with skip_F_run [OF _ eq] lt show ?thesis by simp
    qed
  qed
qed

lemma last_key_F_run:
  assumes "i < length compressed" "last compressed = of_char CHR ''F''"
  shows "scan_keys compressed i \<noteq> [] \<and>
         (\<forall>x\<in>set (last (scan_keys compressed i)). x = of_char CHR ''F'')"
  using assms
proof (induction compressed i rule: scan_keys.induct)
  case (1 compressed i)
  obtain key i' where sc: "scan_code compressed i = (key, i')"
    by (cases "scan_code compressed i")
  have le: "i' \<le> length compressed"
    using scan_code_le [OF "1.prems"(1)] sc by simp
  have unf: "scan_keys compressed i = key # scan_keys compressed i'"
    using "1.prems"(1) sc by (subst scan_keys.simps) simp
  show ?case
  proof (cases "i' < length compressed")
    case True
    from "1.IH" [OF "1.prems"(1) sc [symmetric] True "1.prems"(2)] unf
    show ?thesis by simp
  next
    case False
    with le have eq: "i' = length compressed" by simp
    then have "scan_keys compressed i' = []" by (subst scan_keys.simps) simp
    with unf have one: "scan_keys compressed i = [key]" by simp
    have "\<forall>x\<in>set key. x = of_char CHR ''F''"
      using scan_code_final_run [OF "1.prems"] sc eq by simp
    with one show ?thesis by simp
  qed
qed

text \<open>
  Claim C3. For every stream and every mapping (injective or not), decoding emits one
  character per extracted key and the keys cover the whole stream, so the scan goes on
  after an unknown code; wherever the extracted key is not a code of the mapping the
  output has the placeholder at that position; and a stream that ends in a run of \<open>F\<close>
  decodes to an output that ends in the placeholder, when no code of the mapping is made
  of \<open>F\<close> only. \<open>DecompressText\<close> has no failing branch.
\<close>

theorem DecompressText_unknown_code:
  "length (DecompressText compressed mapping) = length (scan_keys compressed 0) \<and>
   concat (scan_keys compressed 0) = compressed \<and>
   (\<forall>j < length (scan_keys compressed 0).
      scan_keys compressed 0 ! j \<notin> snd ` set mapping \<longrightarrow>
      DecompressText compressed mapping ! j = of_char CHR ''?'') \<and>
   (compressed \<noteq> [] \<and> last compressed = of_char CHR ''F'' \<and>
    (\<forall>code \<in> snd ` set mapping. \<exists>x \<in> set code. x \<noteq> of_char CHR ''F'') \<longrightarrow>
      last (DecompressText compressed mapping) = of_char CHR ''?'')"
proof (intro conjI allI impI)
  show len: "length (DecompressText compressed mapping) = length (scan_keys compressed 0)"
    by (simp add: DecompressText_eq)
  show "concat (scan_keys compressed 0) = compressed"
    using concat_scan_keys [of 0 compressed] by simp
next
  fix j
  assume "j < length (scan_keys compressed 0)"
    and "scan_keys compressed 0 ! j \<notin> snd ` set mapping"
  then show "DecompressText compressed mapping ! j = of_char CHR ''?''"
    using dom_build_inverse [of mapping "scan_keys compressed 0 ! j"]
    by (simp add: DecompressText_eq dict_get_default_def)
next
  assume a: "compressed \<noteq> [] \<and> last compressed = of_char CHR ''F'' \<and>
    (\<forall>code \<in> snd ` set mapping. \<exists>x \<in> set code. x \<noteq> of_char CHR ''F'')"
  then have "0 < length compressed" by simp
  from last_key_F_run [OF this] a
  have ne: "scan_keys compressed 0 \<noteq> []"
    and run: "\<forall>x\<in>set (last (scan_keys compressed 0)). x = of_char CHR ''F''"
    by simp_all
  from run a have "last (scan_keys compressed 0) \<notin> snd ` set mapping" by blast
  then have "dict_get (build_inverse mapping []) (last (scan_keys compressed 0)) = None"
    by (simp add: dom_build_inverse)
  with ne show "last (DecompressText compressed mapping) = of_char CHR ''?''"
    by (simp add: DecompressText_eq last_map dict_get_default_def)
qed

theorem DecompressText_unknown_code_witness:
  "scan_keys (str ''01FF'') 0 = [str ''0'', str ''1'', str ''FF''] \<and>
   str ''1'' \<notin> snd ` set [(97, str ''0'')] \<and>
   DecompressText (str ''01FF'') [(97, str ''0'')] ! 1 = of_char CHR ''?'' \<and>
   last (DecompressText (str ''01FF'') [(97, str ''0'')]) = of_char CHR ''?'' \<and>
   length (DecompressText (str ''01FF'') [(97, str ''0'')]) = 3"
proof -
  have k: "scan_keys (str ''01FF'') 0 = [str ''0'', str ''1'', str ''FF'']"
    by code_simp
  show ?thesis
    using DecompressText_unknown_code [of "str ''01FF''" "[(97, str ''0'')]"]
    by (simp add: k) (simp add: str_def)
qed

lemma skip_F_total: "skip_F_dom (compressed, i)"
proof -
  have "All skip_F_dom"
    by (rule "skip_F.termination" [of "measure (\<lambda>(compressed, i). length compressed - i)"]) auto
  then show ?thesis by simp
qed

lemma DecompressText_loop_total: "DecompressText_loop_dom (compressed, inverse_map, i, result)"
proof -
  have "All DecompressText_loop_dom"
  proof (rule "DecompressText_loop.termination"
      [of "measure (\<lambda>(compressed, inverse_map, i, result). length compressed - i)"], goal_cases)
    case 1
    show ?case by simp
  next
    case (2 compressed inverse_map i result key i')
    then have "i < i'"
      using scan_code_advances [of i compressed] by (cases "scan_code compressed i") simp
    with 2 show ?case by simp
  qed
  then show ?thesis by simp
qed


text \<open>
  Claim C9. For every finite input and every mapping, \<open>DecompressText\<close> terminates: the
  recursion of the outer loop is well founded from the initial state, the inner loop is
  well founded from every cursor, a pass through the body moves the cursor strictly
  forward and not beyond the end, and the output has at most one character per input
  symbol.
\<close>

theorem DecompressText_terminates:
  "DecompressText_loop_dom (compressed, build_inverse mapping [], 0, []) \<and>
   (\<forall>i < length compressed.
      skip_F_dom (compressed, i) \<and>
      i < snd (scan_code compressed i) \<and> snd (scan_code compressed i) \<le> length compressed) \<and>
   length (DecompressText compressed mapping) \<le> length compressed"
proof (intro conjI allI impI)
  show "DecompressText_loop_dom (compressed, build_inverse mapping [], 0, [])"
    by (rule DecompressText_loop_total)
  show "length (DecompressText compressed mapping) \<le> length compressed"
    using length_scan_keys [of compressed 0] by (simp add: DecompressText_eq)
next
  fix i
  assume "i < length compressed"
  then show "skip_F_dom (compressed, i)" "i < snd (scan_code compressed i)"
    "snd (scan_code compressed i) \<le> length compressed"
    by (simp_all add: skip_F_total scan_code_advances scan_code_le)
qed

theorem DecompressText_terminates_witness:
  "DecompressText_loop_dom (str ''F1FZF'', build_inverse [(97, str ''F1'')] [], 0, []) \<and>
   (1::nat) < length (str ''F1FZF'') \<and>
   snd (scan_code (str ''F1FZF'') 0) = 2 \<and>
   snd (scan_code (str ''F1FZF'') 4) = 5 \<and>
   DecompressText (str ''F1FZF'') [(97, str ''F1'')] = str ''a??''"
proof -
  have "snd (scan_code (str ''F1FZF'') 0) = 2" "snd (scan_code (str ''F1FZF'') 4) = 5"
    "DecompressText (str ''F1FZF'') [(97, str ''F1'')] = str ''a??''"
    by code_simp+
  then show ?thesis
    using DecompressText_terminates [of "str ''F1FZF''" "[(97, str ''F1'')]"]
    by (simp add: str_def)
qed

text \<open>
  Claim C10. At every position whose extracted key has no entry in the inverse mapping,
  the character \<open>DecompressText\<close> emits is the question mark, code point \<open>0x3F\<close>.
\<close>

theorem DecompressText_placeholder_question_mark:
  "j < length (scan_keys compressed 0) \<Longrightarrow>
   dict_get (build_inverse mapping []) (scan_keys compressed 0 ! j) = None \<Longrightarrow>
   DecompressText compressed mapping ! j = 0x3F \<and> (0x3F :: pychar) = of_char CHR ''?''"
  by (simp add: DecompressText_eq dict_get_default_def)

theorem DecompressText_placeholder_question_mark_witness:
  "(2::nat) < length (scan_keys (str ''0FFAZ'') 0) \<and>
   dict_get (build_inverse [(97, str ''0''), (98, str ''FFA'')] []) (scan_keys (str ''0FFAZ'') 0 ! 2) = None \<and>
   DecompressText (str ''0FFAZ'') [(97, str ''0''), (98, str ''FFA'')] ! 2 = 0x3F \<and>
   DecompressText (str ''0FFAZ'') [(97, str ''0''), (98, str ''FFA'')] = [97, 98, 0x3F]"
proof -
  have k: "scan_keys (str ''0FFAZ'') 0 = [str ''0'', str ''FFA'', str ''Z'']"
    by code_simp
  have h1: "(2::nat) < length (scan_keys (str ''0FFAZ'') 0)" by (simp add: k)
  have h2: "dict_get (build_inverse [(97, str ''0''), (98, str ''FFA'')] [])
              (scan_keys (str ''0FFAZ'') 0 ! 2) = None"
    by (simp add: k) (simp add: str_def dict_get_def)
  have d: "DecompressText (str ''0FFAZ'') [(97, str ''0''), (98, str ''FFA'')] = [97, 98, 0x3F]"
    by code_simp
  from DecompressText_placeholder_question_mark [OF h1 h2] h1 h2 d show ?thesis by simp
qed

subsection \<open>Mappings that are not injective\<close>

lemma build_inverse_last:
  "dict_get (build_inverse mapping []) code =
     (case filter (\<lambda>item. snd item = code) mapping of
        [] \<Rightarrow> None
      | items \<Rightarrow> Some (fst (last items)))"
proof -
  have "map_of (rev (map (\<lambda>(ch, code). (code, ch)) mapping)) code =
     (case filter (\<lambda>item. snd item = code) mapping of
        [] \<Rightarrow> None
      | items \<Rightarrow> Some (fst (last items)))"
  proof (induction mapping rule: rev_induct)
    case Nil
    show ?case by simp
  next
    case (snoc item items)
    obtain ch c where item: "item = (ch, c)" by (cases item)
    show ?case
    proof (cases "c = code")
      case True
      let ?ys = "filter (\<lambda>item. snd item = code) (items @ [item])"
      have ys: "?ys = filter (\<lambda>item. snd item = code) items @ [item]"
        using True by (simp add: item)
      then have "?ys \<noteq> []" by simp
      then have "(case ?ys of [] \<Rightarrow> None | is \<Rightarrow> Some (fst (last is))) = Some (fst (last ?ys))"
        by (cases ?ys) simp_all
      also have "\<dots> = Some ch" by (simp only: ys) (simp add: item)
      finally show ?thesis using True by (simp add: item)
    next
      case False
      with snoc show ?thesis by (simp add: item)
    qed
  qed
  then show ?thesis by (simp add: dict_get_def map_of_build_inverse)
qed

text \<open>
  Claim C2, as amended. \<open>DecompressText\<close> accepts every mapping, injective or not: building
  the inverse map never fails, a code that several characters share is mapped to the last
  of them in the iteration order of the mapping, and the stream is decoded with that
  inverse map.
\<close>

theorem DecompressText_keeps_last_character:
  "dict_get (build_inverse mapping []) code =
     (case filter (\<lambda>item. snd item = code) mapping of
        [] \<Rightarrow> None
      | items \<Rightarrow> Some (fst (last items))) \<and>
   DecompressText compressed mapping =
     map (\<lambda>key. dict_get_default (build_inverse mapping []) key (of_char CHR ''?''))
       (scan_keys compressed 0)"
  by (simp only: build_inverse_last DecompressText_eq)

theorem DecompressText_keeps_last_character_witness:
  "dict_get (build_inverse [(97, str ''0''), (98, str ''F1''), (99, str ''0'')] []) (str ''0'')
     = Some 99 \<and>
   DecompressText (str ''0F10'') [(97, str ''0''), (98, str ''F1''), (99, str ''0'')]
     = str ''cbc''"
proof -
  have k: "scan_keys (str ''0F10'') 0 = [str ''0'', str ''F1'', str ''0'']" by code_simp
  have b: "build_inverse [(97, str ''0''), (98, str ''F1''), (99, str ''0'')] [] =
      [(str ''0'', 99), (str ''F1'', 98)]"
    by (simp add: str_def)
  show ?thesis
    using DecompressText_keeps_last_character
      [of "[(97, str ''0''), (98, str ''F1''), (99, str ''0'')]" "str ''0''" "str ''0F10''"]
    by (simp add: k b dict_get_default_def dict_get_def) (simp add: str_def)
qed

text \<open>
  Claim C2 as stated fails: the mapping \<^verbatim>\<open>{'a': '0', 'b': '0'}\<close> is a dict that is not
  injective, its inverse map is built, with \<open>b\<close> for the code \<open>0\<close>, and the stream
  \<open>00\<close> is decoded to \<open>bb\<close>.
\<close>

theorem DecompressText_non_injective_accepted:
  "is_dict [(97::pychar, str ''0''), (98, str ''0'')] \<and>
   dict_get [(97, str ''0''), (98, str ''0'')] 97 = dict_get [(97, str ''0''), (98, str ''0'')] 98 \<and>
   build_inverse [(97, str ''0''), (98, str ''0'')] [] = [(str ''0'', 98)] \<and>
   DecompressText (str ''00'') [(97, str ''0''), (98, str ''0'')] = str ''bb''"
proof -
  have "DecompressText (str ''00'') [(97, str ''0''), (98, str ''0'')] = str ''bb''"
    by code_simp
  then show ?thesis by (simp add: is_dict_def dict_keys_def dict_get_def)
qed

subsection \<open>The round trip\<close>

lemma scan_code_at_code:
  assumes dr: "drop i compressed = replicate n (of_char CHR ''F'') @ d # rest"
    and d: "d \<noteq> of_char CHR ''F''"
  shows "scan_code compressed i = (replicate n (of_char CHR ''F'') @ [d], i + n + 1)"
proof -
  have len: "length compressed - i = n + 1 + length rest"
    using arg_cong [OF dr, of length] by simp
  then have lt: "i < length compressed" by simp
  have hd: "compressed ! i = hd (drop i compressed)"
    using lt by (simp add: hd_drop_conv_nth)
  show ?thesis
  proof (cases n)
    case 0
    with hd dr have "compressed ! i = d" by simp
    with d 0 show ?thesis by (simp add: scan_code_def)
  next
    case (Suc k)
    with hd dr have F: "compressed ! i = of_char CHR ''F''" by simp
    have "takeWhile (\<lambda>x. x = of_char CHR ''F'') (drop i compressed) = replicate n (of_char CHR ''F'')"
      unfolding dr using d by (simp add: takeWhile_append2 takeWhile_tail)
    then have sk: "skip_F compressed i = i + n"
      using lt by (simp add: skip_F_takeWhile)
    have "take (Suc n) (drop i compressed) = replicate n (of_char CHR ''F'') @ [d]"
      unfolding dr by simp
    then have sl: "slice compressed i (i + n + 1) = replicate n (of_char CHR ''F'') @ [d]"
      by (simp add: slice_def)
    have "i + n < length compressed" using len by simp
    with F sk sl show ?thesis by (simp add: scan_code_def Let_def)
  qed
qed

lemma scan_keys_concat:
  assumes "\<forall>k\<in>set ks. \<exists>i. k = tier_code i"
    and "drop i compressed = concat ks"
  shows "scan_keys compressed i = ks"
  using assms
proof (induction ks arbitrary: i)
  case Nil
  then have "\<not> i < length compressed" by simp
  then show ?case by (subst scan_keys.simps) simp
next
  case (Cons k ks)
  then obtain m where k: "k = tier_code m" by auto
  let ?n = "m div 15" and ?d = "hex_digit (m mod 15)"
  have dr: "drop i compressed = replicate ?n (of_char CHR ''F'') @ ?d # concat ks"
    using Cons.prems(2) by (simp add: k tier_code_def)
  have d: "?d \<noteq> of_char CHR ''F''" by (rule hex_digit_not_F) simp
  have sc: "scan_code compressed i = (k, i + ?n + 1)"
    using scan_code_at_code [OF dr d] by (simp add: k tier_code_def)
  have lt: "i < length compressed"
    using arg_cong [OF dr, of length] by simp
  have "drop (i + ?n + 1) compressed = drop (?n + 1) (drop i compressed)"
    by (simp add: add.commute)
  also have "\<dots> = concat ks" unfolding dr by simp
  finally have "scan_keys compressed (i + ?n + 1) = ks"
    using Cons.prems(1) by (intro Cons.IH) simp_all
  with lt sc show ?case by (subst scan_keys.simps) simp
qed

lemma roundtrip_BuildMapping:
  assumes d: "distinct sorted_chars" and sub: "set text \<subseteq> set sorted_chars"
  shows "CompressText text (BuildMapping sorted_chars) =
           Inr (concat (map (\<lambda>ch. the (dict_get (BuildMapping sorted_chars) ch)) text)) \<and>
         DecompressText (concat (map (\<lambda>ch. the (dict_get (BuildMapping sorted_chars) ch)) text))
           (BuildMapping sorted_chars) = text"
proof -
  let ?M = "BuildMapping sorted_chars"
  let ?enc = "\<lambda>ch. the (dict_get ?M ch)"
  let ?codes = "map tier_code [0..<length sorted_chars]"
  have M: "?M = zip sorted_chars ?codes" using d by (rule BuildMapping_eq)
  have enc: "\<exists>i. dict_get ?M ch = Some (tier_code i)" if "ch \<in> set text" for ch
  proof -
    from that sub have "ch \<in> set sorted_chars" by blast
    then obtain i where "i < length sorted_chars" "sorted_chars ! i = ch"
      by (auto simp: in_set_conv_nth)
    with BuildMapping_nth [OF d, of i] show ?thesis by auto
  qed
  then have dom: "\<forall>ch\<in>set text. dict_get ?M ch \<noteq> None" by fastforce
  then have c: "CompressText text ?M = Inr (concat (map ?enc text))"
    by (simp add: CompressText_eq)
  have "\<forall>k\<in>set (map ?enc text). \<exists>i. k = tier_code i"
    using enc by fastforce
  then have keys: "scan_keys (concat (map ?enc text)) 0 = map ?enc text"
    by (intro scan_keys_concat) simp_all
  have dc: "distinct ?codes"
    by (auto simp: distinct_map inj_on_def dest: tier_code_inj)
  have inv: "dict_get (build_inverse ?M []) (?enc ch) = Some ch" if "ch \<in> set text" for ch
  proof -
    from enc [OF that] obtain i where "dict_get ?M ch = Some (tier_code i)" by blast
    then have mem: "(ch, ?enc ch) \<in> set ?M"
      by (auto simp: dict_get_def dest: map_of_SomeD)
    let ?inv = "rev (map (\<lambda>(ch, code). (code, ch)) ?M)"
    have "map fst ?inv = rev (map snd ?M)" by (simp add: rev_map case_prod_unfold)
    also have "map snd ?M = ?codes" unfolding M by simp
    finally have "distinct (map fst ?inv)" using dc by simp
    moreover have "(?enc ch, ch) \<in> set ?inv" using mem by force
    ultimately have "map_of ?inv (?enc ch) = Some ch" by (rule map_of_is_SomeI)
    then show ?thesis by (simp add: dict_get_def map_of_build_inverse)
  qed
  have "DecompressText (concat (map ?enc text)) ?M =
      map (\<lambda>ch. dict_get_default (build_inverse ?M []) (?enc ch) (of_char CHR ''?'')) text"
    by (simp add: DecompressText_eq keys comp_def)
  also have "\<dots> = map (\<lambda>ch. ch) text"
    by (rule map_cong) (simp_all add: dict_get_default_def inv)
  finally show ?thesis using c by simp
qed

text \<open>
  Claim C1. For every finite text \<open>T\<close>, with the mapping
  \<open>M = BuildMapping (SortCharacters (CountFrequencies T))\<close>, compression succeeds and
  decompressing its result with \<open>M\<close> gives \<open>T\<close> back.
\<close>

theorem roundtrip:
  "\<exists>compressed.
     CompressText text (BuildMapping (SortCharacters (CountFrequencies text))) = Inr compressed \<and>
     DecompressText compressed (BuildMapping (SortCharacters (CountFrequencies text))) = text"
proof -
  let ?R = "SortCharacters (CountFrequencies text)"
  have d: "distinct ?R"
    using CountFrequencies_keys [of "text"] by (intro distinct_SortCharacters) simp
  have s: "set text \<subseteq> set ?R"
    using CountFrequencies_keys [of "text"] by (simp add: set_SortCharacters)
  from roundtrip_BuildMapping [OF d s] show ?thesis by blast
qed

theorem roundtrip_witness:
  "CompressText (str ''the quick brown fox'')
     (BuildMapping (SortCharacters (CountFrequencies (str ''the quick brown fox''))))
     = Inr (str ''C640AD73802B1E9051F0'') \<and>
   DecompressText (str ''C640AD73802B1E9051F0'')
     (BuildMapping (SortCharacters (CountFrequencies (str ''the quick brown fox''))))
     = str ''the quick brown fox''"
proof -
  have c: "CompressText (str ''the quick brown fox'')
     (BuildMapping (SortCharacters (CountFrequencies (str ''the quick brown fox''))))
     = Inr (str ''C640AD73802B1E9051F0'')"
    by code_simp
  from roundtrip [of "str ''the quick brown fox''"] c show ?thesis by simp
qed

end
